theory Spec2Isabelle
  imports Main "HOL-Library.Word" "HOL-Library.Multiset"
begin

section \<open>The mDNS client (client.go): data model\<close>

text \<open>
  The embedding follows \<^verbatim>\<open>client.go\<close>. Go structs are records, the resource records of
  the DNS codec are a datatype, pointers to \<^verbatim>\<open>ServiceEntry\<close> are addresses into an explicit
  store, a nil pointer is \<open>None\<close>, Go's \<^verbatim>\<open>error\<close> values are a datatype and a run-time panic
  is an outcome of its own.
\<close>

type_synonym byte = "8 word"

text \<open>\<^verbatim>\<open>net.IP\<close> is a byte slice; the nil slice is \<open>None\<close>.\<close>
type_synonym IP = "byte list option"

datatype error = Error string

text \<open>The outcome of a Go function call: it returns a value or it panics.\<close>
datatype 'a outcome = Returned 'a | Panicked

text \<open>\<^verbatim>\<open>type ServiceEntry struct\<close>: \<^verbatim>\<open>Port\<close> is a Go \<^verbatim>\<open>int\<close>.\<close>
record ServiceEntry =
  Name :: string
  Addr :: IP
  Port :: int
  Info :: string
  hasTXT :: bool
  sent :: bool

text \<open>
  The resource records the client looks at, with the fields it reads: the owner name
  \<^verbatim>\<open>Hdr.Name\<close> first, then \<^verbatim>\<open>Ptr\<close> for PTR, \<^verbatim>\<open>Target\<close> and the 16-bit \<^verbatim>\<open>Port\<close> for SRV,
  \<^verbatim>\<open>Txt\<close> for TXT, \<^verbatim>\<open>A\<close> for A and \<^verbatim>\<open>AAAA\<close> for AAAA. Every other record type of the codec
  is \<open>RR_Other\<close>.
\<close>
datatype RR =
    RR_PTR string string
  | RR_SRV string string "16 word"
  | RR_TXT string "string list"
  | RR_A string IP
  | RR_AAAA string IP
  | RR_Other string

text \<open>\<^verbatim>\<open>dns.Msg\<close>: the question section (name and type) and the answer section.\<close>
record Msg =
  Question :: "(string \<times> 16 word) list"
  Answer :: "RR list"

definition TypeANY :: "16 word" where
  "TypeANY = 255"

text \<open>
  \<^verbatim>\<open>new(dns.Msg)\<close> followed by \<^verbatim>\<open>m.SetQuestion(name, qtype)\<close>; the header fields it
  sets are not read by the client.
\<close>
definition SetQuestion :: "string \<Rightarrow> 16 word \<Rightarrow> Msg" where
  "SetQuestion name qtype = \<lparr>Question = [(name, qtype)], Answer = []\<rparr>"

type_synonym UDPConn = nat
type_synonym UDPAddr = "byte list \<times> nat"

text \<open>
  Modelled from the spec: the package variables \<^verbatim>\<open>ipv4Addr\<close> and \<^verbatim>\<open>ipv6Addr\<close> are declared
  outside \<^verbatim>\<open>client.go\<close>; the spec gives the groups 224.0.0.251:5353 and ff02::fb:5353.
\<close>
definition ipv4Addr :: UDPAddr where
  "ipv4Addr = ([224, 0, 0, 251], 5353)"

definition ipv6Addr :: UDPAddr where
  "ipv6Addr = ([255, 2, 0, 0, 0, 0, 0, 0, 0, 0, 0, 0, 0, 0, 0, 251], 5353)"

text \<open>\<^verbatim>\<open>type client struct\<close>: the two listeners (nil when the bind failed) and the flag.\<close>
record client =
  ipv4List :: "UDPConn option"
  ipv6List :: "UDPConn option"
  closed :: bool

subsection \<open>complete\<close>

text \<open>\<^verbatim>\<open>return s.Addr != nil && s.Port != 0 && s.hasTXT\<close>\<close>
definition complete :: "ServiceEntry \<Rightarrow> bool" where
  "complete s = (Addr s \<noteq> None \<and> Port s \<noteq> 0 \<and> hasTXT s)"

subsection \<open>newClient and Close\<close>

text \<open>
  \<^verbatim>\<open>net.ListenUDP\<close> returns a connection and a nil error, or a nil connection and an
  error. Its outcome is an input of the model; this is the pair the Go code receives.
\<close>
fun ListenUDP :: "error + UDPConn \<Rightarrow> UDPConn option \<times> error option" where
  "ListenUDP (Inl err) = (None, Some err)"
| "ListenUDP (Inr conn) = (Some conn, None)"

fun error_text :: "error \<Rightarrow> string" where
  "error_text (Error s) = s"

text \<open>
  \<open>newClient udp4 udp6\<close>, for the outcomes of the two binds: the result and the lines
  written to the log.
\<close>
definition newClient :: "error + UDPConn \<Rightarrow> error + UDPConn \<Rightarrow> (error + client) \<times> string list" where
  "newClient udp4 udp6 =
     (let (ipv4, err4) = ListenUDP udp4;
          lg1 = (case err4 of
                   Some e \<Rightarrow> [''[ERR] mdns: Failed to bind to udp4 port: '' @ error_text e]
                 | None \<Rightarrow> []);
          (ipv6, err6) = ListenUDP udp6;
          lg2 = (case err6 of
                   Some e \<Rightarrow> lg1 @ [''[ERR] mdns: Failed to bind to udp6 port: '' @ error_text e]
                 | None \<Rightarrow> lg1)
      in if ipv4 = None \<and> ipv6 = None
         then (Inl (Error ''Failed to bind to any udp port!''), lg2)
         else (Inr \<lparr>ipv4List = ipv4, ipv6List = ipv6, closed = False\<rparr>, lg2))"

text \<open>\<^verbatim>\<open>Close\<close>: idempotent; the listeners are closed by the operating system.\<close>
definition Close :: "client \<Rightarrow> client" where
  "Close c = (if closed c then c else c\<lparr>closed := True\<rparr>)"

subsection \<open>sendQuery\<close>

text \<open>
  The codec's \<^verbatim>\<open>Pack\<close> and the socket's \<^verbatim>\<open>WriteTo\<close> are parameters: \<open>pack\<close> may fail, and
  \<open>writeTo\<close> acts on the outside world \<open>'w\<close> and returns the byte count and an error, both
  of which \<^verbatim>\<open>sendQuery\<close> drops.
\<close>
type_synonym packer = "Msg \<Rightarrow> error + byte list"
type_synonym 'w writer = "UDPConn \<Rightarrow> byte list \<Rightarrow> UDPAddr \<Rightarrow> 'w \<Rightarrow> (int \<times> error option) \<times> 'w"

definition sendQuery :: "packer \<Rightarrow> 'w writer \<Rightarrow> client \<Rightarrow> Msg \<Rightarrow> 'w \<Rightarrow> error option \<times> 'w" where
  "sendQuery pack writeTo c q w =
     (case pack q of
        Inl err \<Rightarrow> (Some err, w)
      | Inr buf \<Rightarrow>
          (let w1 = (case ipv4List c of
                       Some l \<Rightarrow> snd (writeTo l buf ipv4Addr w)
                     | None \<Rightarrow> w);
               w2 = (case ipv6List c of
                       Some l \<Rightarrow> snd (writeTo l buf ipv6Addr w1)
                     | None \<Rightarrow> w1)
           in (None, w2)))"

subsection \<open>ensureName and the answer loop\<close>

text \<open>
  The store of the entries allocated by one lookup: a pointer is an index into the
  list, allocation appends. \<^verbatim>\<open>inprogress\<close> maps a name to the pointer stored under it.
\<close>
type_synonym ptr = nat
type_synonym store = "ServiceEntry list"
type_synonym names = "string \<rightharpoonup> ptr"

definition ensureName :: "store \<Rightarrow> names \<Rightarrow> string \<Rightarrow> store \<times> names \<times> ptr" where
  "ensureName h inprogress name =
     (case inprogress name of
        Some inp \<Rightarrow> (h, inprogress, inp)
      | None \<Rightarrow>
          (let inp = length h
           in (h @ [\<lparr>Name = name, Addr = None, Port = 0, Info = [], hasTXT = False, sent = False\<rparr>],
               inprogress(name \<mapsto> inp), inp)))"

text \<open>\<^verbatim>\<open>strings.Join(a, sep)\<close>\<close>
fun strings_Join :: "string list \<Rightarrow> string \<Rightarrow> string" where
  "strings_Join [] sep = []"
| "strings_Join [x] sep = x"
| "strings_Join (x # xs) sep = x @ sep @ strings_Join xs sep"

text \<open>
  One iteration of \<^verbatim>\<open>for _, answer := range resp.Answer\<close>: the type switch, acting on the
  store, the map and the local pointer \<^verbatim>\<open>inp\<close>.
\<close>
fun answer_step :: "store \<times> names \<times> ptr option \<Rightarrow> RR \<Rightarrow> store \<times> names \<times> ptr option" where
  "answer_step (h, inprogress, inp) (RR_PTR hdr ptr) =
     (let (h1, inprogress1, p) = ensureName h inprogress ptr
      in (h1, inprogress1, Some p))"
| "answer_step (h, inprogress, inp) (RR_SRV hdr target port) =
     (let (h1, inprogress1, p) = ensureName h inprogress target
      in (h1[p := (h1 ! p)\<lparr>Port := uint port\<rparr>], inprogress1, Some p))"
| "answer_step (h, inprogress, inp) (RR_TXT hdr txt) =
     (let (h1, inprogress1, p) = ensureName h inprogress hdr
      in (h1[p := (h1 ! p)\<lparr>Info := strings_Join txt ''|'', hasTXT := True\<rparr>], inprogress1, Some p))"
| "answer_step (h, inprogress, inp) (RR_A hdr a) =
     (let (h1, inprogress1, p) = ensureName h inprogress hdr
      in (h1[p := (h1 ! p)\<lparr>Addr := a\<rparr>], inprogress1, Some p))"
| "answer_step (h, inprogress, inp) (RR_AAAA hdr aaaa) =
     (let (h1, inprogress1, p) = ensureName h inprogress hdr
      in (h1[p := (h1 ! p)\<lparr>Addr := aaaa\<rparr>], inprogress1, Some p))"
| "answer_step (h, inprogress, inp) (RR_Other hdr) = (h, inprogress, inp)"

definition answers :: "store \<times> names \<times> ptr option \<Rightarrow> RR list \<Rightarrow> store \<times> names \<times> ptr option" where
  "answers s rs = foldl answer_step s rs"

subsection \<open>query\<close>

text \<open>
  The state of one call of \<^verbatim>\<open>query\<close>: the store and the map, the pointers that were
  sent on the channel \<^verbatim>\<open>entries\<close> (oldest first), the outside world and the log.
\<close>
record 'w qstate =
  heap :: store
  inprogress :: names
  entries :: "ptr list"
  world :: 'w
  logs :: "string list"

text \<open>
  The body of \<^verbatim>\<open>case resp := <-msgCh\<close> for one message. \<open>ready\<close> tells whether the
  channel \<^verbatim>\<open>entries\<close> can take a value at this moment (the \<^verbatim>\<open>select\<close> with a
  \<^verbatim>\<open>default\<close> branch drops the entry otherwise). \<^verbatim>\<open>inp.complete()\<close> on a nil \<^verbatim>\<open>inp\<close>
  reads \<^verbatim>\<open>s.Addr\<close> through the nil pointer and panics.
\<close>
definition on_message ::
    "packer \<Rightarrow> 'w writer \<Rightarrow> client \<Rightarrow> Msg \<Rightarrow> bool \<Rightarrow> 'w qstate \<Rightarrow> unit outcome \<times> 'w qstate" where
  "on_message pack writeTo c resp ready st =
     (let (h, names1, inp) = answers (heap st, inprogress st, None) (Answer resp);
          st1 = st\<lparr>heap := h, inprogress := names1\<rparr>
      in case inp of
           None \<Rightarrow> (Panicked, st1)
         | Some p \<Rightarrow>
             if complete (h ! p) \<and> \<not> sent (h ! p)
             then (let st2 = st1\<lparr>heap := h[p := (h ! p)\<lparr>sent := True\<rparr>]\<rparr>
                   in (Returned (), if ready then st2\<lparr>entries := entries st2 @ [p]\<rparr> else st2))
             else (let m = SetQuestion (Name (h ! p)) TypeANY;
                       (err, w1) = sendQuery pack writeTo c m (world st1);
                       st2 = st1\<lparr>world := w1\<rparr>
                   in case err of
                        Some e \<Rightarrow>
                          (Returned (),
                           st2\<lparr>logs := logs st2 @
                             [''[ERR] mdns: Failed to query instance '' @ Name (h ! p) @ '': '' @
                              error_text e]\<rparr>)
                      | None \<Rightarrow> (Returned (), st2)))"

text \<open>
  The two \<^verbatim>\<open>recv\<close> goroutines and the timer are the environment of the loop: what they
  deliver is the list of the messages decoded before the timeout, in the order in which
  the loop takes them from \<^verbatim>\<open>msgCh\<close>.
  The \<^verbatim>\<open>for { select { ... } }\<close> loop over the messages that arrive before the timer
  \<^verbatim>\<open>finish\<close> fires, each with the readiness of \<^verbatim>\<open>entries\<close> at that moment; when they are
  used up the timer fires and the loop returns nil.
\<close>
fun listen ::
    "packer \<Rightarrow> 'w writer \<Rightarrow> client \<Rightarrow> (Msg \<times> bool) list \<Rightarrow> 'w qstate \<Rightarrow>
     error option outcome \<times> 'w qstate" where
  "listen pack writeTo c [] st = (Returned None, st)"
| "listen pack writeTo c ((resp, ready) # evs) st =
     (case on_message pack writeTo c resp ready st of
        (Panicked, st1) \<Rightarrow> (Panicked, st1)
      | (Returned u, st1) \<Rightarrow> listen pack writeTo c evs st1)"

definition query ::
    "packer \<Rightarrow> 'w writer \<Rightarrow> client \<Rightarrow> string \<Rightarrow> (Msg \<times> bool) list \<Rightarrow> 'w \<Rightarrow> string list \<Rightarrow>
     error option outcome \<times> 'w qstate" where
  "query pack writeTo c service evs w lg =
     (let m = SetQuestion service TypeANY;
          (err, w1) = sendQuery pack writeTo c m w;
          st = \<lparr>heap = [], inprogress = Map.empty, entries = [], world = w1, logs = lg\<rparr>
      in case err of
           Some e \<Rightarrow> (Returned None, st)
         | None \<Rightarrow> listen pack writeTo c evs st)"

subsection \<open>LookupDomain and Lookup\<close>

text \<open>
  \<^verbatim>\<open>trimDot\<close> is declared outside \<^verbatim>\<open>client.go\<close> and is a parameter. The deferred
  \<^verbatim>\<open>client.Close()\<close> runs when \<^verbatim>\<open>query\<close> returns and when it panics; the panic goes on
  to the caller.
\<close>
definition LookupDomain ::
    "(string \<Rightarrow> string) \<Rightarrow> packer \<Rightarrow> 'w writer \<Rightarrow> error + UDPConn \<Rightarrow> error + UDPConn \<Rightarrow>
     string \<Rightarrow> string \<Rightarrow> (Msg \<times> bool) list \<Rightarrow> 'w \<Rightarrow>
     error option outcome \<times> 'w qstate \<times> client option" where
  "LookupDomain trimDot pack writeTo udp4 udp6 service domain evs w =
     (case newClient udp4 udp6 of
        (Inl err, lg) \<Rightarrow>
          (Returned (Some err),
           \<lparr>heap = [], inprogress = Map.empty, entries = [], world = w, logs = lg\<rparr>, None)
      | (Inr c, lg) \<Rightarrow>
          (let serviceAddr = trimDot service @ ''.'' @ trimDot domain @ ''.'';
               (res, st) = query pack writeTo c serviceAddr evs w lg
           in (res, st, Some (Close c))))"

definition Lookup ::
    "(string \<Rightarrow> string) \<Rightarrow> packer \<Rightarrow> 'w writer \<Rightarrow> error + UDPConn \<Rightarrow> error + UDPConn \<Rightarrow>
     string \<Rightarrow> (Msg \<times> bool) list \<Rightarrow> 'w \<Rightarrow>
     error option outcome \<times> 'w qstate \<times> client option" where
  "Lookup trimDot pack writeTo udp4 udp6 service evs w =
     LookupDomain trimDot pack writeTo udp4 udp6 service ''local'' evs w"

section \<open>Notions used to state the properties\<close>

subsection \<open>The records of a run, read by kind\<close>

text \<open>
  The name under which the type switch files a record: the \<^verbatim>\<open>Ptr\<close> of a PTR record, the
  \<^verbatim>\<open>Target\<close> of an SRV record, the owner name of a TXT, A or AAAA record; no name for any
  other record.
\<close>
fun rr_key :: "RR \<Rightarrow> string option" where
  "rr_key (RR_PTR hdr ptr) = Some ptr"
| "rr_key (RR_SRV hdr target port) = Some target"
| "rr_key (RR_TXT hdr txt) = Some hdr"
| "rr_key (RR_A hdr ip) = Some hdr"
| "rr_key (RR_AAAA hdr ip) = Some hdr"
| "rr_key (RR_Other hdr) = None"

text \<open>An address record, a service-location record and a text record for the name \<open>n\<close>.\<close>
fun addr_record :: "string \<Rightarrow> RR \<Rightarrow> bool" where
  "addr_record n (RR_A hdr ip) = (hdr = n)"
| "addr_record n (RR_AAAA hdr ip) = (hdr = n)"
| "addr_record n r = False"

fun port_record :: "string \<Rightarrow> RR \<Rightarrow> bool" where
  "port_record n (RR_SRV hdr target port) = (target = n)"
| "port_record n r = False"

fun text_record :: "string \<Rightarrow> RR \<Rightarrow> bool" where
  "text_record n (RR_TXT hdr txt) = (hdr = n)"
| "text_record n r = False"

text \<open>
  A record leaves no field of the entry for \<open>n\<close> empty: it is not an SRV record for \<open>n\<close>
  with port 0 and not an address record for \<open>n\<close> with a nil address.
\<close>
fun carries_value :: "string \<Rightarrow> RR \<Rightarrow> bool" where
  "carries_value n (RR_SRV hdr target port) = (target \<noteq> n \<or> port \<noteq> 0)"
| "carries_value n (RR_A hdr ip) = (hdr \<noteq> n \<or> ip \<noteq> None)"
| "carries_value n (RR_AAAA hdr ip) = (hdr \<noteq> n \<or> ip \<noteq> None)"
| "carries_value n r = True"

text \<open>All answer records of a sequence of received messages, in the order of processing.\<close>
definition records :: "(Msg \<times> bool) list \<Rightarrow> RR list" where
  "records evs = concat (map (\<lambda>ev. Answer (fst ev)) evs)"

text \<open>A received message none of whose answers is of the five kinds.\<close>
definition unkeyed :: "Msg \<times> bool \<Rightarrow> bool" where
  "unkeyed ev = list_all (\<lambda>r. rr_key r = None) (Answer (fst ev))"

subsection \<open>The entry of a name\<close>

text \<open>The entry that \<^verbatim>\<open>inprogress\<close> holds for a name passes \<^verbatim>\<open>complete()\<close>.\<close>
definition entry_complete :: "'w qstate \<Rightarrow> string \<Rightarrow> bool" where
  "entry_complete st n =
     (case inprogress st n of
        None \<Rightarrow> False
      | Some p \<Rightarrow> complete (heap st ! p))"

text \<open>The three things \<open>complete\<close> asks of the entry of a name, each on its own.\<close>
definition addr_known :: "'w qstate \<Rightarrow> string \<Rightarrow> bool" where
  "addr_known st n =
     (case inprogress st n of None \<Rightarrow> False | Some p \<Rightarrow> Addr (heap st ! p) \<noteq> None)"

definition port_known :: "'w qstate \<Rightarrow> string \<Rightarrow> bool" where
  "port_known st n =
     (case inprogress st n of None \<Rightarrow> False | Some p \<Rightarrow> Port (heap st ! p) \<noteq> 0)"

definition text_known :: "'w qstate \<Rightarrow> string \<Rightarrow> bool" where
  "text_known st n =
     (case inprogress st n of None \<Rightarrow> False | Some p \<Rightarrow> hasTXT (heap st ! p))"

text \<open>
  What the completeness test reads of the entry of a name: address, port and the flag
  \<open>hasTXT\<close>. A name without an entry reads like a fresh entry.
\<close>
definition view :: "store \<Rightarrow> names \<Rightarrow> string \<Rightarrow> IP \<times> int \<times> bool" where
  "view h ns n =
     (case ns n of
        None \<Rightarrow> (None, 0, False)
      | Some p \<Rightarrow> (Addr (h ! p), Port (h ! p), hasTXT (h ! p)))"

text \<open>The effect of one record on that reading, for the name \<open>n\<close>.\<close>
fun rr_apply :: "string \<Rightarrow> IP \<times> int \<times> bool \<Rightarrow> RR \<Rightarrow> IP \<times> int \<times> bool" where
  "rr_apply n (a, p, t) (RR_PTR hdr ptr) = (a, p, t)"
| "rr_apply n (a, p, t) (RR_SRV hdr target port) = (if target = n then (a, uint port, t) else (a, p, t))"
| "rr_apply n (a, p, t) (RR_TXT hdr txt) = (if hdr = n then (a, p, True) else (a, p, t))"
| "rr_apply n (a, p, t) (RR_A hdr ip) = (if hdr = n then (ip, p, t) else (a, p, t))"
| "rr_apply n (a, p, t) (RR_AAAA hdr ip) = (if hdr = n then (ip, p, t) else (a, p, t))"
| "rr_apply n (a, p, t) (RR_Other hdr) = (a, p, t)"

subsection \<open>Invariants\<close>

text \<open>
  The store and the map fit: every pointer in the map is allocated and points to the entry
  of that name, and every allocated entry is in the map under its name.
\<close>
definition store_ok :: "store \<Rightarrow> names \<Rightarrow> bool" where
  "store_ok h ns \<longleftrightarrow>
     (\<forall>n p. ns n = Some p \<longrightarrow> p < length h \<and> Name (h ! p) = n) \<and>
     (\<forall>p<length h. ns (Name (h ! p)) = Some p)"

text \<open>The loop invariant of \<^verbatim>\<open>query\<close>: every pointer sent on \<^verbatim>\<open>entries\<close> is marked \<open>sent\<close>.\<close>
definition qinv :: "'w qstate \<Rightarrow> bool" where
  "qinv st \<longleftrightarrow>
     store_ok (heap st) (inprogress st) \<and> distinct (entries st) \<and>
     (\<forall>p\<in>set (entries st). p < length (heap st) \<and> sent (heap st ! p))"

subsection \<open>Environments for concrete runs\<close>

text \<open>A socket that records every datagram, and one on which every write fails.\<close>
definition trace_writer :: "(UDPConn \<times> byte list \<times> UDPAddr) list writer" where
  "trace_writer l buf addr w = ((int (length buf), None), w @ [(l, buf, addr)])"

definition failing_writer :: "'w writer" where
  "failing_writer l buf addr w = ((0, Some (Error ''sendto: network is unreachable'')), w)"

text \<open>A codec that packs the question names, and one that rejects every message.\<close>
definition name_packer :: packer where
  "name_packer m = Inr (concat (map (\<lambda>(n, t). map (\<lambda>ch. of_nat (of_char ch)) n) (Question m)))"

definition failing_packer :: packer where
  "failing_packer m = Inl (Error ''dns: bad rdata'')"

text \<open>
  The instance of the repository's test: one message with all of its records, an SRV
  record with port 0 for it, a message with the three kinds of which the SRV record has
  port 0, and a client with an IPv4 listener only.
\<close>
definition ex_name :: string where
  "ex_name = ''hostname._foobar._tcp.local.''"

definition ex_client :: client where
  "ex_client = \<lparr>ipv4List = Some 3, ipv6List = None, closed = False\<rparr>"

definition ex_full :: Msg where
  "ex_full = \<lparr>Question = [],
             Answer = [RR_SRV ex_name ex_name 80, RR_TXT ex_name [''Local web server''],
                       RR_A ex_name (Some [127, 0, 0, 1])]\<rparr>"

definition ex_port0 :: Msg where
  "ex_port0 = \<lparr>Question = [], Answer = [RR_SRV ex_name ex_name 0]\<rparr>"

definition ex_all_kinds_port0 :: Msg where
  "ex_all_kinds_port0 = \<lparr>Question = [],
             Answer = [RR_A ex_name (Some [127, 0, 0, 1]), RR_SRV ex_name ex_name 0,
                       RR_TXT ex_name [''Local web server'']]\<rparr>"

section \<open>Properties\<close>

subsection \<open>complete, newClient, sendQuery\<close>

text \<open>
  C2. For every entry, \<open>complete\<close> is true exactly when the address is present (not nil),
  the port is not zero and the flag \<open>hasTXT\<close> is set.
\<close>
theorem complete_iff:
  "complete s = True \<longleftrightarrow> (\<exists>ip. Addr s = Some ip) \<and> Port s \<noteq> 0 \<and> hasTXT s = True"
  by (cases "Addr s") (simp_all add: complete_def)

text \<open>
  C7. \<open>newClient\<close> returns an error exactly when both binds fail; when at least one bind
  succeeds it returns a client that holds the listeners that were bound, at least one of
  them.
\<close>
theorem newClient_error_iff:
  "((\<exists>e. fst (newClient udp4 udp6) = Inl e) \<longleftrightarrow> isl udp4 \<and> isl udp6) \<and>
   ((\<exists>c. fst (newClient udp4 udp6) = Inr c \<and>
         ipv4List c = fst (ListenUDP udp4) \<and> ipv6List c = fst (ListenUDP udp6) \<and>
         (ipv4List c \<noteq> None \<or> ipv6List c \<noteq> None)) \<longleftrightarrow> \<not> (isl udp4 \<and> isl udp6))"
  by (cases udp4; cases udp6) (simp_all add: newClient_def)

theorem newClient_error_iff_witness:
  "(\<exists>c. fst (newClient (Inl (Error ''listen udp4: address family not supported'')) (Inr 4)) = Inr c \<and>
        ipv4List c = None \<and> ipv6List c = Some 4) \<and>
   (\<exists>e. fst (newClient (Inl (Error ''no udp4'')) (Inl (Error ''no udp6''))) = Inl e)"
  using newClient_error_iff [of "Inl (Error ''listen udp4: address family not supported'')" "Inr 4"]
    newClient_error_iff [of "Inl (Error ''no udp4'')" "Inl (Error ''no udp6'')"]
  by auto

text \<open>
  C10. \<open>sendQuery\<close> returns an error exactly when packing fails, and then the error of
  the codec; what the socket writes return has no influence.
\<close>
theorem sendQuery_error_iff:
  "fst (sendQuery pack writeTo c q w) = (case pack q of Inl err \<Rightarrow> Some err | Inr buf \<Rightarrow> None)"
  by (simp add: sendQuery_def Let_def split: sum.splits)

theorem sendQuery_error_iff_witness:
  "fst (sendQuery name_packer failing_writer \<lparr>ipv4List = Some 3, ipv6List = Some 4, closed = False\<rparr>
          (SetQuestion ''_foobar._tcp.local.'' TypeANY) ()) = None \<and>
   fst (sendQuery failing_packer trace_writer \<lparr>ipv4List = Some 3, ipv6List = Some 4, closed = False\<rparr>
          (SetQuestion ''_foobar._tcp.local.'' TypeANY) []) = Some (Error ''dns: bad rdata'')"
  by (simp add: sendQuery_error_iff name_packer_def failing_packer_def)

text \<open>
  C4 (the code departs from the claim). When packing the initial question fails,
  \<open>sendQuery\<close> returns the error and \<open>query\<close> returns nil, not the error.
\<close>
theorem query_drops_initial_send_error:
  "pack (SetQuestion service TypeANY) = Inl e \<Longrightarrow>
   fst (query pack writeTo c service evs w lg) = Returned None"
  by (simp add: query_def sendQuery_def)

theorem query_drops_initial_send_error_witness:
  "failing_packer (SetQuestion ''_foobar._tcp.local.'' TypeANY) = Inl (Error ''dns: bad rdata'') \<and>
   fst (query failing_packer trace_writer \<lparr>ipv4List = Some 3, ipv6List = None, closed = False\<rparr>
          ''_foobar._tcp.local.'' [] [] []) = Returned None"
proof -
  have h: "failing_packer (SetQuestion ''_foobar._tcp.local.'' TypeANY) = Inl (Error ''dns: bad rdata'')"
    by (simp add: failing_packer_def)
  show ?thesis
    by (rule conjI [OF h query_drops_initial_send_error [of failing_packer "''_foobar._tcp.local.''", OF h]])
qed


subsection \<open>The store and the map\<close>

lemma store_ok_empty: "store_ok [] Map.empty"
  by (simp add: store_ok_def)

lemma store_ok_lookup: "store_ok h ns \<Longrightarrow> ns n = Some p \<Longrightarrow> p < length h \<and> Name (h ! p) = n"
  by (simp add: store_ok_def)

lemma store_ok_cell: "store_ok h ns \<Longrightarrow> p < length h \<Longrightarrow> ns (Name (h ! p)) = Some p"
  by (simp add: store_ok_def)

lemma store_ok_ptr_inj:
  assumes "store_ok h ns" "ns n = Some p" "ns m = Some p"
  shows "n = m"
proof -
  have "Name (h ! p) = n" using store_ok_lookup [OF assms(1,2)] by simp
  moreover have "Name (h ! p) = m" using store_ok_lookup [OF assms(1,3)] by simp
  ultimately show ?thesis by simp
qed

lemma ensureName_hit:
  "ns name = Some p \<Longrightarrow> ensureName h ns name = (h, ns, p)"
  by (simp add: ensureName_def)

lemma ensureName_miss:
  "ns name = None \<Longrightarrow>
   ensureName h ns name =
     (h @ [\<lparr>Name = name, Addr = None, Port = 0, Info = [], hasTXT = False, sent = False\<rparr>],
      ns(name \<mapsto> length h), length h)"
  by (simp add: ensureName_def Let_def)

lemma store_ok_alloc:
  assumes "store_ok h ns" "ns name = None" "Name e = name"
  shows "store_ok (h @ [e]) (ns(name \<mapsto> length h))"
proof -
  have 1: "p < length (h @ [e]) \<and> Name ((h @ [e]) ! p) = n"
    if a: "(ns(name \<mapsto> length h)) n = Some p" for n p
  proof (cases "n = name")
    case True
    with a assms(3) show ?thesis by auto
  next
    case False
    with a have "ns n = Some p" by simp
    from store_ok_lookup [OF assms(1) this] show ?thesis by (simp add: nth_append)
  qed
  have 2: "(ns(name \<mapsto> length h)) (Name ((h @ [e]) ! p)) = Some p"
    if a: "p < length (h @ [e])" for p
  proof (cases "p < length h")
    case True
    from store_ok_cell [OF assms(1) this] have c: "ns (Name (h ! p)) = Some p" .
    with assms(2) have "Name (h ! p) \<noteq> name" by auto
    with c True show ?thesis by (simp add: nth_append)
  next
    case False
    with a have "p = length h" by simp
    with assms(3) show ?thesis by simp
  qed
  from 1 2 show ?thesis unfolding store_ok_def by blast
qed

lemma store_ok_update:
  assumes "store_ok h ns" "ns name = Some p" "Name e = name"
  shows "store_ok (h[p := e]) ns"
proof -
  have 1: "q < length (h[p := e]) \<and> Name (h[p := e] ! q) = n" if a: "ns n = Some q" for n q
    using store_ok_lookup [OF assms(1) a] store_ok_lookup [OF assms(1,2)] assms(3) a assms(2)
    by (cases "q = p") simp_all
  have 2: "ns (Name (h[p := e] ! q)) = Some q" if a: "q < length (h[p := e])" for q
  proof -
    from a have q: "q < length h" by simp
    from store_ok_cell [OF assms(1) q] store_ok_lookup [OF assms(1,2)] assms(2,3) q
    show ?thesis by (cases "q = p") simp_all
  qed
  from 1 2 show ?thesis unfolding store_ok_def by blast
qed

lemma ensureName_wf:
  assumes "store_ok h ns" "ensureName h ns name = (h1, ns1, p)"
  shows "store_ok h1 ns1 \<and> ns1 name = Some p \<and> p < length h1 \<and> length h \<le> length h1"
proof (cases "ns name")
  case None
  from assms(2) have e: "h1 = h @ [\<lparr>Name = name, Addr = None, Port = 0, Info = [], hasTXT = False, sent = False\<rparr>]"
    "ns1 = ns(name \<mapsto> length h)" "p = length h"
    by (auto simp: ensureName_miss None)
  have "store_ok h1 ns1" unfolding e by (rule store_ok_alloc [OF assms(1) None]) simp
  with e show ?thesis by simp
next
  case (Some q)
  from assms(2) have e: "h1 = h" "ns1 = ns" "p = q"
    by (simp_all add: ensureName_hit Some)
  with assms(1) Some store_ok_lookup [OF assms(1) Some] show ?thesis by simp
qed

lemma view_alloc:
  assumes "store_ok h ns" "ns name = None"
  shows "view (h @ [\<lparr>Name = name, Addr = None, Port = 0, Info = [], hasTXT = False, sent = False\<rparr>])
              (ns(name \<mapsto> length h)) n = view h ns n"
proof (cases "n = name")
  case True
  with assms(2) show ?thesis by (simp add: view_def)
next
  case False
  show ?thesis
  proof (cases "ns n")
    case None
    with False show ?thesis by (simp add: view_def)
  next
    case (Some q)
    from store_ok_lookup [OF assms(1) Some] have "q < length h" by simp
    with Some False show ?thesis by (simp add: view_def nth_append)
  qed
qed

lemma ensureName_view:
  assumes "store_ok h ns" "ensureName h ns name = (h1, ns1, p)"
  shows "view h1 ns1 n = view h ns n"
proof (cases "ns name")
  case None
  from assms(2) have e: "h1 = h @ [\<lparr>Name = name, Addr = None, Port = 0, Info = [], hasTXT = False, sent = False\<rparr>]"
    "ns1 = ns(name \<mapsto> length h)"
    by (auto simp: ensureName_miss None)
  show ?thesis unfolding e by (rule view_alloc [OF assms(1) None])
next
  case (Some q)
  with assms(2) show ?thesis by (simp add: ensureName_hit)
qed

lemma ensureName_sent:
  assumes "ensureName h ns name = (h1, ns1, p)" "q < length h1"
  shows "sent (h1 ! q) = (q < length h \<and> sent (h ! q))"
proof (cases "ns name")
  case None
  from assms(1) have e: "h1 = h @ [\<lparr>Name = name, Addr = None, Port = 0, Info = [], hasTXT = False, sent = False\<rparr>]"
    by (simp add: ensureName_miss None)
  from assms(2) show ?thesis unfolding e by (cases "q < length h") (simp_all add: nth_append)
next
  case (Some r)
  with assms show ?thesis by (simp add: ensureName_hit)
qed

lemma view_update:
  assumes "store_ok h ns" "ns name = Some p"
  shows "view (h[p := e]) ns n =
           (if n = name then (Addr e, Port e, hasTXT e) else view h ns n)"
proof (cases "n = name")
  case True
  with assms(2) store_ok_lookup [OF assms] show ?thesis by (simp add: view_def)
next
  case False
  show ?thesis
  proof (cases "ns n")
    case None
    with False show ?thesis by (simp add: view_def)
  next
    case (Some q)
    with assms False have "q \<noteq> p" by (auto dest: store_ok_ptr_inj)
    with Some False show ?thesis by (simp add: view_def)
  qed
qed

lemma view_at:
  "ns n = Some p \<Longrightarrow> view h ns n = (Addr (h ! p), Port (h ! p), hasTXT (h ! p))"
  by (simp add: view_def)


text \<open>Writing through the pointer that ensureName returned.\<close>
lemma touch_props:
  assumes w: "store_ok h ns" and en: "ensureName h ns name = (h1, ns1, p)"
    and f: "\<And>e. Name (f e) = Name e" "\<And>e. sent (f e) = sent e"
  shows "store_ok (h1[p := f (h1 ! p)]) ns1 \<and>
         view (h1[p := f (h1 ! p)]) ns1 n =
           (if n = name then (Addr (f (h1 ! p)), Port (f (h1 ! p)), hasTXT (f (h1 ! p)))
            else view h ns n) \<and>
         view h ns name = (Addr (h1 ! p), Port (h1 ! p), hasTXT (h1 ! p)) \<and>
         p < length h1 \<and> length h \<le> length h1 \<and> ns1 name = Some p \<and>
         (\<forall>q<length h1. sent (h1[p := f (h1 ! p)] ! q) = (q < length h \<and> sent (h ! q)))"
proof -
  from ensureName_wf [OF w en]
  have w1: "store_ok h1 ns1" and l: "ns1 name = Some p" and b: "p < length h1" and g: "length h \<le> length h1"
    by simp_all
  from store_ok_lookup [OF w1 l] have nm: "Name (h1 ! p) = name" by simp
  have 1: "store_ok (h1[p := f (h1 ! p)]) ns1"
    by (rule store_ok_update [OF w1 l]) (simp add: f nm)
  have 2: "view (h1[p := f (h1 ! p)]) ns1 n =
           (if n = name then (Addr (f (h1 ! p)), Port (f (h1 ! p)), hasTXT (f (h1 ! p)))
            else view h ns n)"
    by (simp add: view_update [OF w1 l] ensureName_view [OF w en])
  have 3: "view h ns name = (Addr (h1 ! p), Port (h1 ! p), hasTXT (h1 ! p))"
    using ensureName_view [OF w en, where n = name] view_at [where ns = ns1 and n = name and p = p and h = h1] l by simp
  have 4: "sent (h1[p := f (h1 ! p)] ! q) = (q < length h \<and> sent (h ! q))"
    if q: "q < length h1" for q
  proof (cases "q = p")
    case True
    with b have "sent (h1[p := f (h1 ! p)] ! q) = sent (h1 ! q)" by (simp add: f)
    with ensureName_sent [OF en q] show ?thesis by simp
  next
    case False
    then have "sent (h1[p := f (h1 ! p)] ! q) = sent (h1 ! q)" by simp
    with ensureName_sent [OF en q] show ?thesis by simp
  qed
  from 1 2 3 4 b g l show ?thesis by blast
qed

lemma answer_step_props:
  assumes w: "store_ok h ns" and st: "answer_step (h, ns, inp) r = (h', ns', inp')"
    and i: "\<And>p. inp = Some p \<Longrightarrow> p < length h"
  shows "store_ok h' ns' \<and> view h' ns' n = rr_apply n (view h ns n) r \<and> length h \<le> length h' \<and>
        (\<forall>q<length h'. sent (h' ! q) = (q < length h \<and> sent (h ! q))) \<and>
        (\<forall>p. inp' = Some p \<longrightarrow> p < length h') \<and>
        inp' = (if rr_key r = None then inp else ns' (the (rr_key r)))"
proof -
  obtain a pt t where v: "view h ns n = (a, pt, t)" by (cases "view h ns n") auto
  show ?thesis
  proof (cases r)
    case (RR_PTR hdr ptr)
    obtain h1 ns1 p where en: "ensureName h ns ptr = (h1, ns1, p)"
      by (cases "ensureName h ns ptr") auto
    with st RR_PTR have e: "h' = h1" "ns' = ns1" "inp' = Some p" by simp_all
    from ensureName_wf [OF w en] ensureName_view [OF w en, of n] ensureName_sent [OF en]
    show ?thesis unfolding e RR_PTR by (simp add: v)
  next
    case (RR_SRV hdr target port)
    obtain h1 ns1 p where en: "ensureName h ns target = (h1, ns1, p)"
      by (cases "ensureName h ns target") auto
    with st RR_SRV have e: "h' = h1[p := (\<lambda>e. e\<lparr>Port := uint port\<rparr>) (h1 ! p)]" "ns' = ns1" "inp' = Some p"
      by simp_all
    from ensureName_wf [OF w en] have l: "ns1 target = Some p" by simp
    from touch_props [OF w en, where f = "\<lambda>e. e\<lparr>Port := uint port\<rparr>" and n = n]
    show ?thesis unfolding e RR_SRV using v l by (auto simp: v)
  next
    case (RR_TXT hdr ts)
    obtain h1 ns1 p where en: "ensureName h ns hdr = (h1, ns1, p)"
      by (cases "ensureName h ns hdr") auto
    with st RR_TXT have e: "h' = h1[p := (\<lambda>e. e\<lparr>Info := strings_Join ts ''|'', hasTXT := True\<rparr>) (h1 ! p)]"
      "ns' = ns1" "inp' = Some p"
      by simp_all
    from ensureName_wf [OF w en] have l: "ns1 hdr = Some p" by simp
    from touch_props [OF w en, where f = "\<lambda>e. e\<lparr>Info := strings_Join ts ''|'', hasTXT := True\<rparr>" and n = n]
    show ?thesis unfolding e RR_TXT using v l by (auto simp: v)
  next
    case (RR_A hdr ip)
    obtain h1 ns1 p where en: "ensureName h ns hdr = (h1, ns1, p)"
      by (cases "ensureName h ns hdr") auto
    with st RR_A have e: "h' = h1[p := (\<lambda>e. e\<lparr>Addr := ip\<rparr>) (h1 ! p)]" "ns' = ns1" "inp' = Some p"
      by simp_all
    from ensureName_wf [OF w en] have l: "ns1 hdr = Some p" by simp
    from touch_props [OF w en, where f = "\<lambda>e. e\<lparr>Addr := ip\<rparr>" and n = n]
    show ?thesis unfolding e RR_A using v l by (auto simp: v)
  next
    case (RR_AAAA hdr ip)
    obtain h1 ns1 p where en: "ensureName h ns hdr = (h1, ns1, p)"
      by (cases "ensureName h ns hdr") auto
    with st RR_AAAA have e: "h' = h1[p := (\<lambda>e. e\<lparr>Addr := ip\<rparr>) (h1 ! p)]" "ns' = ns1" "inp' = Some p"
      by simp_all
    from ensureName_wf [OF w en] have l: "ns1 hdr = Some p" by simp
    from touch_props [OF w en, where f = "\<lambda>e. e\<lparr>Addr := ip\<rparr>" and n = n]
    show ?thesis unfolding e RR_AAAA using v l by (auto simp: v)
  next
    case (RR_Other hdr)
    with st have e: "h' = h" "ns' = ns" "inp' = inp" by simp_all
    show ?thesis unfolding e RR_Other using w i by (simp add: v)
  qed
qed


subsection \<open>The answer loop and the message loop\<close>

lemma answers_Nil: "answers s [] = s"
  by (simp add: answers_def)

lemma answers_Cons: "answers s (r # rs) = answers (answer_step s r) rs"
  by (simp add: answers_def)

lemma answers_props:
  assumes "store_ok h ns" "answers (h, ns, inp) rs = (h', ns', inp')" "\<And>p. inp = Some p \<Longrightarrow> p < length h"
  shows "store_ok h' ns' \<and> view h' ns' n = foldl (rr_apply n) (view h ns n) rs \<and>
         length h \<le> length h' \<and>
         (\<forall>q<length h'. sent (h' ! q) = (q < length h \<and> sent (h ! q))) \<and>
         (\<forall>p. inp' = Some p \<longrightarrow> p < length h') \<and>
         (inp' = None \<longleftrightarrow> inp = None \<and> list_all (\<lambda>r. rr_key r = None) rs)"
  using assms
proof (induction rs arbitrary: h ns inp)
  case Nil
  then show ?case by (auto simp: answers_Nil)
next
  case (Cons r rs)
  obtain h1 ns1 inp1 where s: "answer_step (h, ns, inp) r = (h1, ns1, inp1)"
    by (cases "answer_step (h, ns, inp) r") auto
  note P = answer_step_props [OF Cons.prems(1) s Cons.prems(3), where n = n]
  from P have P1: "store_ok h1 ns1" and P2: "view h1 ns1 n = rr_apply n (view h ns n) r"
    and P3: "length h \<le> length h1"
    and P4: "\<forall>q<length h1. sent (h1 ! q) = (q < length h \<and> sent (h ! q))"
    and P5: "\<And>p. inp1 = Some p \<Longrightarrow> p < length h1"
    and P6: "inp1 = (if rr_key r = None then inp else ns1 (the (rr_key r)))"
    by simp_all
  from Cons.prems(2) s have a: "answers (h1, ns1, inp1) rs = (h', ns', inp')"
    by (simp add: answers_Cons)
  note IH = Cons.IH [OF P1 a P5]
  have k: "inp1 = None \<longleftrightarrow> inp = None \<and> rr_key r = None"
  proof (cases "rr_key r")
    case None
    with P6 show ?thesis by simp
  next
    case (Some k)
    with s Cons.prems(1) have "inp1 \<noteq> None"
      by (cases r) (auto split: prod.splits)
    with Some show ?thesis by simp
  qed
  from IH have "store_ok h' ns'" by simp
  moreover from IH P2 have "view h' ns' n = foldl (rr_apply n) (view h ns n) (r # rs)" by simp
  moreover from IH P3 have "length h \<le> length h'" by simp
  moreover have "\<forall>q<length h'. sent (h' ! q) = (q < length h \<and> sent (h ! q))"
  proof (intro allI impI)
    fix q assume q: "q < length h'"
    with IH have "sent (h' ! q) = (q < length h1 \<and> sent (h1 ! q))" by simp
    also have "\<dots> = (q < length h \<and> sent (h ! q))" using P4 P3 by auto
    finally show "sent (h' ! q) = (q < length h \<and> sent (h ! q))" .
  qed
  moreover from IH have "\<forall>p. inp' = Some p \<longrightarrow> p < length h'" by simp
  moreover from IH k have "inp' = None \<longleftrightarrow> inp = None \<and> list_all (\<lambda>r. rr_key r = None) (r # rs)"
    by simp
  ultimately show ?case by blast
qed


lemma on_message_props:
  assumes inv: "qinv st" and om: "on_message pack writeTo c resp ready st = (res, st')"
  shows "qinv st' \<and>
         view (heap st') (inprogress st') n =
           foldl (rr_apply n) (view (heap st) (inprogress st) n) (Answer resp) \<and>
         (res = Panicked \<longleftrightarrow> list_all (\<lambda>r. rr_key r = None) (Answer resp))"
proof -
  obtain h ns inp where a: "answers (heap st, inprogress st, None) (Answer resp) = (h, ns, inp)"
    by (cases "answers (heap st, inprogress st, None) (Answer resp)") auto
  from inv have w0: "store_ok (heap st) (inprogress st)" and d0: "distinct (entries st)"
    and e0: "\<And>p. p \<in> set (entries st) \<Longrightarrow> p < length (heap st) \<and> sent (heap st ! p)"
    by (simp_all add: qinv_def)
  from answers_props [OF w0 a, where n = n]
  have w: "store_ok h ns"
    and v: "view h ns n = foldl (rr_apply n) (view (heap st) (inprogress st) n) (Answer resp)"
    and g: "length (heap st) \<le> length h"
    and s: "\<And>q. q < length h \<Longrightarrow> sent (h ! q) = (q < length (heap st) \<and> sent (heap st ! q))"
    and b: "\<And>p. inp = Some p \<Longrightarrow> p < length h"
    and k: "inp = None \<longleftrightarrow> list_all (\<lambda>r. rr_key r = None) (Answer resp)"
    by simp_all
  have e1: "p < length h \<and> sent (h ! p)" if "p \<in> set (entries st)" for p
    using e0 [OF that] g s [of p] by simp
  show ?thesis
  proof (cases inp)
    case None
    with om a have r: "res = Panicked" and st': "st' = st\<lparr>heap := h, inprogress := ns\<rparr>"
      by (simp_all add: on_message_def)
    from w d0 e1 have "qinv st'" unfolding st' by (simp add: qinv_def)
    with v k None r show ?thesis unfolding st' by simp
  next
    case (Some p)
    from b [OF Some] have pl: "p < length h" .
    from store_ok_cell [OF w pl] have l: "ns (Name (h ! p)) = Some p" .
    show ?thesis
    proof (cases "complete (h ! p) \<and> \<not> sent (h ! p)")
      case True
      define h2 where "h2 = h[p := (h ! p)\<lparr>sent := True\<rparr>]"
      from om a Some True have r: "res = Returned ()"
        and hp: "heap st' = h2" and np: "inprogress st' = ns"
        and ep: "entries st' = (if ready then entries st @ [p] else entries st)"
        by (auto simp: on_message_def Let_def h2_def split: if_splits)
      have w2: "store_ok h2 ns" unfolding h2_def by (rule store_ok_update [OF w l]) simp
      have v2: "view h2 ns n = view h ns n"
        unfolding h2_def using view_update [OF w l, of "(h ! p)\<lparr>sent := True\<rparr>" n]
          view_at [where ns = ns and n = "Name (h ! p)" and p = p and h = h] l
        by (cases "n = Name (h ! p)") simp_all
      from True e1 have pn: "p \<notin> set (entries st)" by auto
      have s2: "q < length h2 \<and> sent (h2 ! q)" if "q \<in> set (entries st) \<or> q = p" for q
        using that e1 [of q] pl unfolding h2_def by (cases "q = p") auto
      from d0 pn s2 have "distinct (entries st') \<and>
          (\<forall>q\<in>set (entries st'). q < length (heap st') \<and> sent (heap st' ! q))"
        unfolding hp ep by auto
      with w2 have "qinv st'" unfolding qinv_def hp np by simp
      with v v2 k Some r show ?thesis unfolding hp np by simp
    next
      case False
      from om a Some False have r: "res = Returned ()"
        and hp: "heap st' = h" and np: "inprogress st' = ns" and ep: "entries st' = entries st"
        by (auto simp: on_message_def Let_def split: prod.splits option.splits)
      from w d0 e1 have "qinv st'" unfolding qinv_def hp np ep by simp
      with v k Some r show ?thesis unfolding hp np by simp
    qed
  qed
qed


lemma records_Nil: "records [] = []"
  by (simp add: records_def)

lemma records_Cons: "records (ev # evs) = Answer (fst ev) @ records evs"
  by (simp add: records_def)

lemma records_append: "records (evs @ evs') = records evs @ records evs'"
  by (simp add: records_def)

lemma listen_props:
  assumes "qinv st" "listen pack writeTo c evs st = (res, st')"
  shows "qinv st' \<and>
         (\<exists>k\<le>length evs.
            view (heap st') (inprogress st') n =
              foldl (rr_apply n) (view (heap st) (inprogress st) n) (records (take k evs)) \<and>
            (res \<noteq> Panicked \<longrightarrow> k = length evs)) \<and>
         (res = Panicked \<or> res = Returned None)"
  using assms
proof (induction evs arbitrary: st)
  case Nil
  then show ?case by (simp add: records_Nil)
next
  case (Cons ev evs)
  obtain resp ready where ev: "ev = (resp, ready)" by (cases ev) auto
  obtain r1 st1 where om: "on_message pack writeTo c resp ready st = (r1, st1)"
    by (cases "on_message pack writeTo c resp ready st") auto
  from on_message_props [OF Cons.prems(1) om, where n = n]
  have i1: "qinv st1"
    and v1: "view (heap st1) (inprogress st1) n =
               foldl (rr_apply n) (view (heap st) (inprogress st) n) (Answer resp)"
    by simp_all
  show ?case
  proof (cases r1)
    case Panicked
    with Cons.prems(2) ev om have e: "res = Panicked" "st' = st1" by simp_all
    have "view (heap st1) (inprogress st1) n =
            foldl (rr_apply n) (view (heap st) (inprogress st) n) (records (take 1 (ev # evs)))"
      using v1 ev by (simp add: records_Cons records_Nil)
    then have "\<exists>k\<le>length (ev # evs).
            view (heap st1) (inprogress st1) n =
              foldl (rr_apply n) (view (heap st) (inprogress st) n) (records (take k (ev # evs))) \<and>
            (res \<noteq> Panicked \<longrightarrow> k = length (ev # evs))"
      using e by (intro exI [of _ 1]) simp
    with i1 e show ?thesis by simp
  next
    case (Returned u)
    with Cons.prems(2) ev om have l: "listen pack writeTo c evs st1 = (res, st')" by simp
    from Cons.IH [OF i1 l] obtain k where i2: "qinv st'" and k: "k \<le> length evs"
      and v2: "view (heap st') (inprogress st') n =
                 foldl (rr_apply n) (view (heap st1) (inprogress st1) n) (records (take k evs))"
      and f: "res \<noteq> Panicked \<longrightarrow> k = length evs"
      and o: "res = Panicked \<or> res = Returned None"
      by blast
    have "view (heap st') (inprogress st') n =
            foldl (rr_apply n) (view (heap st) (inprogress st) n) (records (take (Suc k) (ev # evs)))"
      using v1 v2 ev by (simp add: records_Cons)
    with k f have "\<exists>k\<le>length (ev # evs).
            view (heap st') (inprogress st') n =
              foldl (rr_apply n) (view (heap st) (inprogress st) n) (records (take k (ev # evs))) \<and>
            (res \<noteq> Panicked \<longrightarrow> k = length (ev # evs))"
      by (intro exI [of _ "Suc k"]) simp
    with i2 o show ?thesis by simp
  qed
qed

lemma listen_append:
  "listen pack writeTo c (evs @ evs') st =
     (case listen pack writeTo c evs st of
        (Panicked, st1) \<Rightarrow> (Panicked, st1)
      | (Returned u, st1) \<Rightarrow> listen pack writeTo c evs' st1)"
proof (induction evs arbitrary: st)
  case Nil
  show ?case by simp
next
  case (Cons ev evs)
  obtain resp ready where ev: "ev = (resp, ready)" by (cases ev) auto
  show ?case
    by (cases "on_message pack writeTo c resp ready st")
       (simp add: ev Cons.IH split: outcome.splits)
qed

lemma qinv_init:
  "qinv \<lparr>heap = [], inprogress = Map.empty, entries = [], world = w, logs = lg\<rparr>"
  by (simp add: qinv_def store_ok_empty)

lemma view_init: "view [] Map.empty n = (None, 0, False)"
  by (simp add: view_def)

lemma query_unfold:
  "query pack writeTo c service evs w lg =
     (case pack (SetQuestion service TypeANY) of
        Inl e \<Rightarrow> (Returned None, \<lparr>heap = [], inprogress = Map.empty, entries = [], world = w, logs = lg\<rparr>)
      | Inr buf \<Rightarrow>
          listen pack writeTo c evs
            \<lparr>heap = [], inprogress = Map.empty, entries = [],
             world = snd (sendQuery pack writeTo c (SetQuestion service TypeANY) w), logs = lg\<rparr>)"
  by (simp add: query_def sendQuery_def Let_def split: sum.splits)

lemma query_qinv:
  assumes "query pack writeTo c service evs w lg = (res, st)"
  shows "qinv st"
proof (cases "pack (SetQuestion service TypeANY)")
  case (Inl e)
  with assms show ?thesis by (auto simp: query_unfold qinv_init)
next
  case (Inr buf)
  with assms have l: "listen pack writeTo c evs
      \<lparr>heap = [], inprogress = Map.empty, entries = [],
       world = snd (sendQuery pack writeTo c (SetQuestion service TypeANY) w), logs = lg\<rparr> = (res, st)"
    by (simp add: query_unfold)
  from listen_props [OF qinv_init l, where n = "[]"] show ?thesis by simp
qed

lemma qinv_names_distinct:
  assumes "qinv st"
  shows "distinct (map (\<lambda>p. Name (heap st ! p)) (entries st))"
proof -
  from assms have w: "store_ok (heap st) (inprogress st)" and d: "distinct (entries st)"
    and b: "\<And>p. p \<in> set (entries st) \<Longrightarrow> p < length (heap st)"
    by (simp_all add: qinv_def)
  have "inj_on (\<lambda>p. Name (heap st ! p)) (set (entries st))"
  proof (rule inj_onI)
    fix p q assume p: "p \<in> set (entries st)" and q: "q \<in> set (entries st)"
      and e: "Name (heap st ! p) = Name (heap st ! q)"
    have "Some p = inprogress st (Name (heap st ! p))"
      by (rule store_ok_cell [OF w b [OF p], symmetric])
    also have "\<dots> = inprogress st (Name (heap st ! q))" by (simp only: e)
    also have "\<dots> = Some q" by (rule store_ok_cell [OF w b [OF q]])
    finally show "p = q" by simp
  qed
  with d show ?thesis by (simp add: distinct_map)
qed

text \<open>
  C3. Within one call of \<open>query\<close>, whatever messages arrive and whatever the codec and
  the sockets do, no pointer is sent on \<^verbatim>\<open>entries\<close> twice, and no two pointers sent there
  are entries of the same name.
\<close>
theorem query_emits_once:
  "distinct (entries (snd (query pack writeTo c service evs w lg))) \<and>
   distinct (map (\<lambda>p. Name (heap (snd (query pack writeTo c service evs w lg)) ! p))
               (entries (snd (query pack writeTo c service evs w lg))))"
proof -
  obtain res st where q: "query pack writeTo c service evs w lg = (res, st)"
    by (cases "query pack writeTo c service evs w lg") auto
  from query_qinv [OF q] have i: "qinv st" .
  then have "distinct (entries st)" by (simp add: qinv_def)
  with qinv_names_distinct [OF i] q show ?thesis by simp
qed


subsection \<open>Completeness of an entry\<close>

lemma uint_port_eq_0: "uint (port :: 16 word) = 0 \<longleftrightarrow> port = 0"
  by (rule uint_0_iff)

lemma fold_view:
  assumes "list_all (carries_value n) rs" "foldl (rr_apply n) (a, p, t) rs = (a', p', t')"
  shows "(a' \<noteq> None \<longleftrightarrow> a \<noteq> None \<or> list_ex (addr_record n) rs) \<and>
         (p' \<noteq> 0 \<longleftrightarrow> p \<noteq> 0 \<or> list_ex (port_record n) rs) \<and>
         (t' \<longleftrightarrow> t \<or> list_ex (text_record n) rs)"
  using assms
proof (induction rs arbitrary: a p t)
  case Nil
  then show ?case by simp
next
  case (Cons r rs)
  obtain a1 p1 t1 where s: "rr_apply n (a, p, t) r = (a1, p1, t1)"
    by (cases "rr_apply n (a, p, t) r") auto
  from Cons.prems have l: "list_all (carries_value n) rs" and c: "carries_value n r"
    and f: "foldl (rr_apply n) (a1, p1, t1) rs = (a', p', t')"
    by (simp_all add: s)
  note IH = Cons.IH [OF l f]
  have "(a1 \<noteq> None \<longleftrightarrow> a \<noteq> None \<or> addr_record n r) \<and>
        (p1 \<noteq> 0 \<longleftrightarrow> p \<noteq> 0 \<or> port_record n r) \<and>
        (t1 \<longleftrightarrow> t \<or> text_record n r)"
    using s c by (cases r) (auto simp: uint_port_eq_0 split: if_splits)
  with IH show ?case by auto
qed

lemma entry_complete_view:
  "entry_complete st n \<longleftrightarrow>
     (case view (heap st) (inprogress st) n of (a, p, t) \<Rightarrow> a \<noteq> None \<and> p \<noteq> 0 \<and> t)"
  by (simp add: entry_complete_def view_def complete_def split: option.splits)


lemmas run_defs =
  query_def listen.simps on_message_def answers_def ensureName_def sendQuery_def SetQuestion_def
  complete_def entry_complete_def Let_def name_packer_def trace_writer_def ex_client_def
  ex_full_def ex_port0_def ex_all_kinds_port0_def ex_name_def records_def

lemma records_take_subset: "set (records (take k evs)) \<subseteq> set (records evs)"
  by (auto simp: records_def dest: in_set_takeD)

lemma query_view:
  assumes "query pack writeTo c service evs w lg = (res, st)"
  shows "\<exists>k\<le>length evs.
           view (heap st) (inprogress st) n = foldl (rr_apply n) (None, 0, False) (records (take k evs)) \<and>
           (res \<noteq> Panicked \<and> \<not> isl (pack (SetQuestion service TypeANY)) \<longrightarrow> k = length evs)"
proof (cases "pack (SetQuestion service TypeANY)")
  case (Inl e)
  with assms have "st = \<lparr>heap = [], inprogress = Map.empty, entries = [], world = w, logs = lg\<rparr>"
    by (auto simp: query_unfold)
  then have "view (heap st) (inprogress st) n = foldl (rr_apply n) (None, 0, False) (records (take 0 evs))"
    by (simp add: view_init records_Nil)
  with Inl show ?thesis by (intro exI [of _ 0]) simp
next
  case (Inr buf)
  with assms have l: "listen pack writeTo c evs
      \<lparr>heap = [], inprogress = Map.empty, entries = [],
       world = snd (sendQuery pack writeTo c (SetQuestion service TypeANY) w), logs = lg\<rparr> = (res, st)"
    by (simp add: query_unfold)
  from listen_props [OF qinv_init l, where n = n] show ?thesis
    by (simp add: view_init) blast
qed

text \<open>
  C1 (amended). Let a call of \<open>query\<close> send its initial question and return after the
  messages \<open>evs\<close>, and let \<open>rs\<close> be the records of these messages in any order. If no SRV
  record for the name \<open>n\<close> among them has port 0 and no A or AAAA record for \<open>n\<close> has a nil
  address, then the entry of \<open>n\<close> is complete exactly when an address record, an SRV record
  and a TXT record for \<open>n\<close> are among them. The right-hand side does not depend on the
  order of the records.
\<close>
theorem complete_iff_all_kinds:
  assumes "pack (SetQuestion service TypeANY) = Inr buf"
    and "query pack writeTo c service evs w lg = (Returned r, st)"
    and "mset rs = mset (records evs)"
    and "list_all (carries_value n) rs"
  shows "entry_complete st n \<longleftrightarrow>
           list_ex (addr_record n) rs \<and> list_ex (port_record n) rs \<and> list_ex (text_record n) rs"
proof -
  from assms(3) have se: "set rs = set (records evs)" by (rule mset_eq_setD)
  from query_view [OF assms(2), where n = n] assms(1)
  have v: "view (heap st) (inprogress st) n = foldl (rr_apply n) (None, 0, False) (records evs)"
    by auto
  obtain a p t where f: "foldl (rr_apply n) (None, 0, False) (records evs) = (a, p, t)"
    by (cases "foldl (rr_apply n) (None, 0, False) (records evs)") auto
  from assms(4) se have "list_all (carries_value n) (records evs)"
    by (simp add: list_all_iff)
  from fold_view [OF this f]
  have "(a \<noteq> None \<and> p \<noteq> 0 \<and> t) \<longleftrightarrow>
          list_ex (addr_record n) (records evs) \<and> list_ex (port_record n) (records evs) \<and>
          list_ex (text_record n) (records evs)"
    by simp
  also have "\<dots> \<longleftrightarrow>
          list_ex (addr_record n) rs \<and> list_ex (port_record n) rs \<and> list_ex (text_record n) rs"
    by (simp add: list_ex_iff se)
  finally show ?thesis by (simp add: entry_complete_view v f)
qed

theorem complete_iff_all_kinds_witness:
  "name_packer (SetQuestion ''_foobar._tcp.local.'' TypeANY) =
     Inr (map (\<lambda>ch. of_nat (of_char ch)) ''_foobar._tcp.local.'') \<and>
   fst (query name_packer trace_writer ex_client ''_foobar._tcp.local.'' [(ex_full, True)] [] []) =
     Returned None \<and>
   list_all (carries_value ex_name) (rev (Answer ex_full)) \<and>
   entry_complete
     (snd (query name_packer trace_writer ex_client ''_foobar._tcp.local.'' [(ex_full, True)] [] []))
     ex_name \<and>
   list_ex (addr_record ex_name) (rev (Answer ex_full)) \<and>
   list_ex (port_record ex_name) (rev (Answer ex_full)) \<and>
   list_ex (text_record ex_name) (rev (Answer ex_full))"
proof -
  have 1: "name_packer (SetQuestion ''_foobar._tcp.local.'' TypeANY) =
     Inr (map (\<lambda>ch. of_nat (of_char ch)) ''_foobar._tcp.local.'')"
    by (simp add: name_packer_def SetQuestion_def)
  obtain st where 2: "query name_packer trace_writer ex_client ''_foobar._tcp.local.''
      [(ex_full, True)] [] [] = (Returned None, st)"
    by (cases "query name_packer trace_writer ex_client ''_foobar._tcp.local.'' [(ex_full, True)] [] []")
       (simp add: run_defs)
  have 3: "mset (rev (Answer ex_full)) = mset (records [(ex_full, True)])"
    by (simp add: records_def)
  have 4: "list_all (carries_value ex_name) (rev (Answer ex_full))"
    by (simp add: ex_full_def)
  have 5: "list_ex (addr_record ex_name) (rev (Answer ex_full)) \<and>
   list_ex (port_record ex_name) (rev (Answer ex_full)) \<and>
   list_ex (text_record ex_name) (rev (Answer ex_full))"
    by (simp add: ex_full_def)
  from complete_iff_all_kinds [OF 1 2 3 4] 5 have "entry_complete st ex_name" by simp
  with 1 2 4 5 show ?thesis by simp
qed

text \<open>
  The claim C1 as stated fails: an address record, an SRV record with port 0 and a TXT
  record for one name are processed, and the entry is not complete.
\<close>
theorem complete_iff_all_kinds_counterexample:
  "fst (query name_packer trace_writer ex_client ''_foobar._tcp.local.''
          [(ex_all_kinds_port0, True)] [] []) = Returned None \<and>
   list_ex (addr_record ex_name) (Answer ex_all_kinds_port0) \<and>
   list_ex (port_record ex_name) (Answer ex_all_kinds_port0) \<and>
   list_ex (text_record ex_name) (Answer ex_all_kinds_port0) \<and>
   \<not> entry_complete
     (snd (query name_packer trace_writer ex_client ''_foobar._tcp.local.''
             [(ex_all_kinds_port0, True)] [] []))
     ex_name"
  by (simp add: run_defs)

lemma known_view:
  "view (heap st) (inprogress st) n = (a, p, t) \<Longrightarrow>
   addr_known st n = (a \<noteq> None) \<and> port_known st n = (p \<noteq> 0) \<and> text_known st n = t"
  by (auto simp: view_def addr_known_def port_known_def text_known_def split: option.splits)

lemma entry_complete_known:
  "entry_complete st n \<longleftrightarrow> addr_known st n \<and> port_known st n \<and> text_known st n"
  by (simp add: entry_complete_def complete_def addr_known_def port_known_def text_known_def
      split: option.splits)

text \<open>
  C6 (amended). Let the entry of \<open>n\<close> be read after the messages \<open>evs\<close> and again after
  further messages \<open>evs'\<close>, none of whose records is an SRV record for \<open>n\<close> with port 0 or an
  A or AAAA record for \<open>n\<close> with a nil address. Then an address that was present is still
  present, a port that was not zero is still not zero, a flag \<open>hasTXT\<close> that was set is
  still set, and an entry that was complete is still complete. This holds also for the
  state in which a later message makes the loop panic.
\<close>
theorem fields_preserved:
  assumes "query pack writeTo c service evs w lg = (Returned r, st)"
    and "query pack writeTo c service (evs @ evs') w lg = (res', st')"
    and "list_all (carries_value n) (records evs')"
  shows "(addr_known st n \<longrightarrow> addr_known st' n) \<and>
         (port_known st n \<longrightarrow> port_known st' n) \<and>
         (text_known st n \<longrightarrow> text_known st' n) \<and>
         (entry_complete st n \<longrightarrow> entry_complete st' n)"
proof (cases "pack (SetQuestion service TypeANY)")
  case (Inl e)
  with assms(1,2) have "st' = st" by (auto simp: query_unfold)
  then show ?thesis by simp
next
  case (Inr buf)
  let ?st0 = "\<lparr>heap = [], inprogress = Map.empty, entries = [],
       world = snd (sendQuery pack writeTo c (SetQuestion service TypeANY) w), logs = lg\<rparr>"
  from assms(1) Inr have l1: "listen pack writeTo c evs ?st0 = (Returned r, st)"
    by (simp add: query_unfold)
  from assms(2) Inr have "listen pack writeTo c (evs @ evs') ?st0 = (res', st')"
    by (simp add: query_unfold)
  with l1 have l2: "listen pack writeTo c evs' st = (res', st')"
    by (simp add: listen_append)
  from listen_props [OF qinv_init l1, where n = n] have i: "qinv st" by simp
  from listen_props [OF i l2, where n = n] obtain k where
    v: "view (heap st') (inprogress st') n =
          foldl (rr_apply n) (view (heap st) (inprogress st) n) (records (take k evs'))"
    by blast
  obtain a p t where s: "view (heap st) (inprogress st) n = (a, p, t)"
    by (cases "view (heap st) (inprogress st) n") auto
  obtain a' p' t' where s': "view (heap st') (inprogress st') n = (a', p', t')"
    by (cases "view (heap st') (inprogress st') n") auto
  from assms(3) records_take_subset [of k evs']
  have "list_all (carries_value n) (records (take k evs'))"
    by (auto simp: list_all_iff)
  from fold_view [OF this, of a p t a' p' t'] v s s'
  have "(a \<noteq> None \<longrightarrow> a' \<noteq> None) \<and> (p \<noteq> 0 \<longrightarrow> p' \<noteq> 0) \<and> (t \<longrightarrow> t')" by simp
  with known_view [OF s] known_view [OF s'] show ?thesis
    by (simp add: entry_complete_known)
qed

theorem fields_preserved_witness:
  "fst (query name_packer trace_writer ex_client ''_foobar._tcp.local.'' [(ex_full, True)] [] []) =
     Returned None \<and>
   list_all (carries_value ex_name) (records [(ex_full, False)]) \<and>
   entry_complete
     (snd (query name_packer trace_writer ex_client ''_foobar._tcp.local.'' [(ex_full, True)] [] []))
     ex_name \<and>
   entry_complete
     (snd (query name_packer trace_writer ex_client ''_foobar._tcp.local.''
             ([(ex_full, True)] @ [(ex_full, False)]) [] []))
     ex_name"
proof -
  obtain st where 1: "query name_packer trace_writer ex_client ''_foobar._tcp.local.''
      [(ex_full, True)] [] [] = (Returned None, st)"
    by (cases "query name_packer trace_writer ex_client ''_foobar._tcp.local.'' [(ex_full, True)] [] []")
       (simp add: run_defs)
  have 2: "entry_complete st ex_name"
    using 1 [symmetric] by (simp add: run_defs)
  obtain res' st' where 3: "query name_packer trace_writer ex_client ''_foobar._tcp.local.''
      ([(ex_full, True)] @ [(ex_full, False)]) [] [] = (res', st')"
    by (cases "query name_packer trace_writer ex_client ''_foobar._tcp.local.''
      ([(ex_full, True)] @ [(ex_full, False)]) [] []") auto
  have 4: "list_all (carries_value ex_name) (records [(ex_full, False)])"
    by (simp add: records_def ex_full_def)
  from fields_preserved [OF 1 3 4] 2 have "entry_complete st' ex_name" by simp
  with 1 2 3 4 show ?thesis by simp
qed

text \<open>
  The claim C6 as stated fails: the entry is complete after the first message, and the
  SRV record with port 0 in the second message overwrites the port and makes it
  incomplete.
\<close>
theorem fields_preserved_counterexample:
  "entry_complete
     (snd (query name_packer trace_writer ex_client ''_foobar._tcp.local.'' [(ex_full, True)] [] []))
     ex_name \<and>
   \<not> entry_complete
     (snd (query name_packer trace_writer ex_client ''_foobar._tcp.local.''
             [(ex_full, True), (ex_port0, True)] [] []))
     ex_name"
  by (simp add: run_defs)

lemma answers_unkeyed:
  "list_all (\<lambda>r. rr_key r = None) rs \<Longrightarrow> answers s rs = s"
proof (induction rs arbitrary: s)
  case Nil
  show ?case by (simp add: answers_Nil)
next
  case (Cons r rs)
  obtain h ns inp where s: "s = (h, ns, inp)" by (cases s) auto
  from Cons.prems have "answer_step s r = s" unfolding s by (cases r) simp_all
  with Cons show ?case by (simp add: answers_Cons)
qed

text \<open>
  C9 (the code departs from the claim). For a message that has no PTR, SRV, TXT, A or
  AAAA answer, \<^verbatim>\<open>inp\<close> is still nil after the answer loop and \<^verbatim>\<open>inp.complete()\<close> panics.
\<close>
theorem on_message_nil_entry:
  "list_all (\<lambda>r. rr_key r = None) (Answer resp) \<Longrightarrow>
   fst (on_message pack writeTo c resp ready st) = Panicked"
  by (simp add: on_message_def answers_unkeyed)

theorem on_message_nil_entry_witness:
  "list_all (\<lambda>r. rr_key r = None) (Answer (SetQuestion ''_foobar._tcp.local.'' TypeANY)) \<and>
   fst (on_message name_packer trace_writer ex_client (SetQuestion ''_foobar._tcp.local.'' TypeANY) True
          \<lparr>heap = [], inprogress = Map.empty, entries = [], world = [], logs = []\<rparr>) = Panicked"
proof -
  have h: "list_all (\<lambda>r. rr_key r = None) (Answer (SetQuestion ''_foobar._tcp.local.'' TypeANY))"
    by (simp add: SetQuestion_def)
  show ?thesis
    by (rule conjI [OF h on_message_nil_entry [OF h]])
qed

lemma listen_outcome:
  assumes "qinv st"
  shows "fst (listen pack writeTo c evs st) = (if list_ex unkeyed evs then Panicked else Returned None)"
  using assms
proof (induction evs arbitrary: st)
  case Nil
  show ?case by simp
next
  case (Cons ev evs)
  obtain resp ready where ev: "ev = (resp, ready)" by (cases ev) auto
  obtain r1 st1 where om: "on_message pack writeTo c resp ready st = (r1, st1)"
    by (cases "on_message pack writeTo c resp ready st") auto
  from on_message_props [OF Cons.prems om, where n = "[]"]
  have i1: "qinv st1" and p: "r1 = Panicked \<longleftrightarrow> unkeyed ev"
    by (simp_all add: unkeyed_def ev)
  show ?case
  proof (cases r1)
    case Panicked
    with p om ev show ?thesis by simp
  next
    case (Returned u)
    with p om ev Cons.IH [OF i1] show ?thesis by simp
  qed
qed

lemma query_outcome:
  "fst (query pack writeTo c service evs w lg) =
     (if isl (pack (SetQuestion service TypeANY)) then Returned None
      else if list_ex unkeyed evs then Panicked
      else Returned None)"
  by (cases "pack (SetQuestion service TypeANY)")
     (simp_all add: query_unfold listen_outcome [OF qinv_init])

text \<open>
  The result of \<open>LookupDomain\<close> in every case: the error of \<open>newClient\<close> when both binds
  fail, else nil when the initial question does not pack, else a panic when some message
  has no answer of the five kinds, else nil.
\<close>
lemma LookupDomain_outcome:
  "fst (LookupDomain trimDot pack writeTo udp4 udp6 service domain evs w) =
     (if isl udp4 \<and> isl udp6 then Returned (Some (Error ''Failed to bind to any udp port!''))
      else if isl (pack (SetQuestion (trimDot service @ ''.'' @ trimDot domain @ ''.'') TypeANY))
        then Returned None
      else if list_ex unkeyed evs then Panicked
      else Returned None)"
proof (cases "isl udp4 \<and> isl udp6")
  case True
  then have "\<exists>lg. newClient udp4 udp6 = (Inl (Error ''Failed to bind to any udp port!''), lg)"
    by (cases udp4; cases udp6) (simp_all add: newClient_def)
  with True show ?thesis by (auto simp: LookupDomain_def)
next
  case False
  then have "\<exists>cl lg. newClient udp4 udp6 = (Inr cl, lg)"
    by (cases udp4; cases udp6) (simp_all add: newClient_def)
  then obtain cl lg where n: "newClient udp4 udp6 = (Inr cl, lg)" by blast
  have "fst (LookupDomain trimDot pack writeTo udp4 udp6 service domain evs w) =
          fst (query pack writeTo cl (trimDot service @ ''.'' @ trimDot domain @ ''.'') evs w lg)"
    by (simp add: LookupDomain_def n Let_def split: prod.splits)
  with False show ?thesis by (simp add: query_outcome)
qed

text \<open>
  C8 (the code departs from the claim). When a listener is bound and the initial
  question packs, and one of the received messages has no PTR, SRV, TXT, A or AAAA answer,
  \<open>LookupDomain\<close> does not return nil: it panics; so does \<open>Lookup\<close>.
\<close>
theorem LookupDomain_panics:
  assumes "\<not> (isl udp4 \<and> isl udp6)"
    and "pack (SetQuestion (trimDot service @ ''.'' @ trimDot domain @ ''.'') TypeANY) = Inr buf"
    and "list_ex unkeyed evs"
  shows "fst (LookupDomain trimDot pack writeTo udp4 udp6 service domain evs w) = Panicked \<and>
         fst (Lookup trimDot pack writeTo udp4 udp6 service evs w) =
           (if isl (pack (SetQuestion (trimDot service @ ''.'' @ trimDot ''local'' @ ''.'') TypeANY))
            then Returned None else Panicked)"
  using assms by (simp add: LookupDomain_outcome Lookup_def)

theorem LookupDomain_panics_witness:
  "\<not> (isl (Inr 3 :: error + UDPConn) \<and> isl (Inl (Error ''listen udp6: no such device'') :: error + UDPConn)) \<and>
   name_packer (SetQuestion (id ''_foobar._tcp'' @ ''.'' @ id ''local'' @ ''.'') TypeANY) =
     Inr (map (\<lambda>ch. of_nat (of_char ch)) ''_foobar._tcp.local.'') \<and>
   list_ex unkeyed [(ex_full, True), (\<lparr>Question = [], Answer = []\<rparr>, True)] \<and>
   fst (LookupDomain id name_packer trace_writer (Inr 3) (Inl (Error ''listen udp6: no such device''))
          ''_foobar._tcp'' ''local'' [(ex_full, True), (\<lparr>Question = [], Answer = []\<rparr>, True)] []) =
     Panicked \<and>
   fst (Lookup id name_packer trace_writer (Inr 3) (Inl (Error ''listen udp6: no such device''))
          ''_foobar._tcp'' [(ex_full, True), (\<lparr>Question = [], Answer = []\<rparr>, True)] []) =
     Panicked"
proof -
  have 1: "\<not> (isl (Inr 3 :: error + UDPConn) \<and>
     isl (Inl (Error ''listen udp6: no such device'') :: error + UDPConn))"
    by simp
  have 2: "name_packer (SetQuestion (id ''_foobar._tcp'' @ ''.'' @ id ''local'' @ ''.'') TypeANY) =
     Inr (map (\<lambda>ch. of_nat (of_char ch)) ''_foobar._tcp.local.'')"
    by (simp add: name_packer_def SetQuestion_def)
  have 3: "list_ex unkeyed [(ex_full, True), (\<lparr>Question = [], Answer = []\<rparr>, True)]"
    by (simp add: unkeyed_def)
  from LookupDomain_panics [where trimDot = id and pack = name_packer and service = "''_foobar._tcp''"
      and domain = "''local''" and writeTo = trace_writer and w = "[]", OF 1 2 3] 1 2 3
  show ?thesis
    by (simp add: name_packer_def SetQuestion_def)
qed


lemma on_message_follow_up:
  assumes "answers (heap st, inprogress st, None) (Answer resp) = (h, ns, Some p)"
  shows "world (snd (on_message pack writeTo c resp ready st)) =
     (if complete (h ! p) \<and> \<not> sent (h ! p) then world st
      else snd (sendQuery pack writeTo c (SetQuestion (Name (h ! p)) TypeANY) (world st)))"
  using assms by (simp add: on_message_def Let_def split: prod.splits option.splits)

text \<open>
  C5 (the code departs from the claim). The same complete message arrives twice. After
  the first the entry is complete and is sent on \<^verbatim>\<open>entries\<close>, and only the initial question
  has been written to the socket. After the second the entry is still complete, and a
  follow-up question for its name has been written.
\<close>
theorem follow_up_for_emitted_entry:
  "entry_complete
     (snd (query name_packer trace_writer ex_client ''_foobar._tcp.local.'' [(ex_full, True)] [] []))
     ex_name \<and>
   entries (snd (query name_packer trace_writer ex_client ''_foobar._tcp.local.'' [(ex_full, True)] [] []))
     = [0] \<and>
   world (snd (query name_packer trace_writer ex_client ''_foobar._tcp.local.'' [(ex_full, True)] [] []))
     = [(3, map (\<lambda>ch. of_nat (of_char ch)) ''_foobar._tcp.local.'', ipv4Addr)] \<and>
   entry_complete
     (snd (query name_packer trace_writer ex_client ''_foobar._tcp.local.''
             [(ex_full, True), (ex_full, True)] [] []))
     ex_name \<and>
   world (snd (query name_packer trace_writer ex_client ''_foobar._tcp.local.''
             [(ex_full, True), (ex_full, True)] [] []))
     = [(3, map (\<lambda>ch. of_nat (of_char ch)) ''_foobar._tcp.local.'', ipv4Addr),
        (3, map (\<lambda>ch. of_nat (of_char ch)) ex_name, ipv4Addr)]"
  by (simp add: run_defs)


text \<open>The same complete message three times: its entry is sent once.\<close>
lemma query_emits_once_example:
  "entries (snd (query name_packer trace_writer ex_client ''_foobar._tcp.local.''
             [(ex_full, True), (ex_full, True), (ex_full, True)] [] [])) = [0]"
  by (simp add: run_defs)


end
